theory Spec2Isabelle
  imports Complex_Main "HOL-Library.Word"
begin

section \<open>Conventions of the embedding\<close>

text \<open>
  The development embeds the signal-processing core of the FM decoder: the ring buffer
  (\<^verbatim>\<open>internal/ringbuffer/ringbuffer.go\<close>), the decimating FIR filter
  (\<^verbatim>\<open>internal/dsp/fir.go\<close>), the polar-discriminator demodulator
  (\<^verbatim>\<open>internal/dsp/demodulator.go\<close>) and the de-emphasis filter
  (\<^verbatim>\<open>internal/dsp/deemphasis.go\<close>).

  \<^item> Go's \<^verbatim>\<open>int\<close> is \<^typ>\<open>int\<close>: every integer the code computes is bounded by a slice
    length, so the 64-bit range is never left.
  \<^item> \<^verbatim>\<open>int16\<close> samples are \<^typ>\<open>16 word\<close>.
  \<^item> \<^verbatim>\<open>float32\<close> and \<^verbatim>\<open>float64\<close> values are \<^typ>\<open>real\<close> and \<^verbatim>\<open>complex64\<close> is
    \<^typ>\<open>complex\<close>: the arithmetic is the exact one, rounding, infinities, NaN and signed
    zeros are outside the model, and the conversions between the float types are the
    identity.
  \<^item> A run-time panic of Go (slice bounds, index out of range, negative length for
    \<^verbatim>\<open>make\<close>, integer division by zero, the explicit \<^verbatim>\<open>panic\<close> of \<^verbatim>\<open>Write\<close>) is a value
    of the type \<open>go_panic\<close>.
  \<^item> A \<^verbatim>\<open>nil\<close> slice result is \<^term>\<open>None\<close>, a present slice is \<^term>\<open>Some xs\<close>.
\<close>

datatype go_panic =
  IndexOutOfRange | SliceBounds | NegativeLen | DivideByZero | WriteToClosed

text \<open>The conversion \<^verbatim>\<open>int(x)\<close> of a float truncates towards zero.\<close>

definition go_int :: "real \<Rightarrow> int" where
  "go_int x = (if 0 \<le> x then \<lfloor>x\<rfloor> else \<lceil>x\<rceil>)"

text \<open>The index expression \<^verbatim>\<open>xs[i]\<close>; \<^term>\<open>None\<close> is the index-out-of-range panic.\<close>

definition go_index :: "'a list \<Rightarrow> int \<Rightarrow> 'a option" where
  "go_index xs i = (if 0 \<le> i \<and> i < int (length xs) then Some (xs ! nat i) else None)"

text \<open>
  The slice expression \<^verbatim>\<open>xs[lo:hi]\<close> on a slice whose capacity is its length;
  \<^term>\<open>None\<close> is the slice-bounds panic.
\<close>

definition go_slice :: "'a list \<Rightarrow> int \<Rightarrow> int \<Rightarrow> 'a list option" where
  "go_slice xs lo hi =
     (if 0 \<le> lo \<and> lo \<le> hi \<and> hi \<le> int (length xs)
      then Some (take (nat (hi - lo)) (drop (nat lo) xs)) else None)"

text \<open>What a caller sees of a possibly \<^verbatim>\<open>nil\<close> slice when it appends it or ranges over it.\<close>

definition elems :: "'a list option \<Rightarrow> 'a list" where
  "elems r = (case r of None \<Rightarrow> [] | Some xs \<Rightarrow> xs)"


section \<open>Demodulator (demodulator.go)\<close>

text \<open>
  \<^verbatim>\<open>math.Atan2(y, x)\<close> of the Go standard library, on finite reals: the special cases
  \<^verbatim>\<open>y == 0\<close> and \<^verbatim>\<open>x == 0\<close> first, then the quadrant correction of \<^verbatim>\<open>Atan(y / x)\<close>.
\<close>

definition Atan2 :: "real \<Rightarrow> real \<Rightarrow> real" where
  "Atan2 y x =
     (if y = 0 then (if 0 \<le> x then 0 else pi)
      else if x = 0 then (if 0 < y then pi / 2 else - (pi / 2))
      else (let q = arctan (y / x)
            in if x < 0 then (if q \<le> 0 then q + pi else q - pi) else q))"

text \<open>\<^verbatim>\<open>cmplx.Phase(x)\<close> is \<^verbatim>\<open>math.Atan2(imag(x), real(x))\<close>.\<close>

definition Phase :: "complex \<Rightarrow> real" where
  "Phase z = Atan2 (Im z) (Re z)"

record Demodulator =
  prev :: complex

definition NewDemodulator :: Demodulator where
  "NewDemodulator = \<lparr>prev = 0\<rparr>"

text \<open>
  The \<^verbatim>\<open>for i, current := range samples\<close> loop of \<^verbatim>\<open>Process\<close>: it returns the output
  samples in order and the final value of the local \<^verbatim>\<open>prev\<close>.
\<close>

fun demod_loop :: "complex \<Rightarrow> complex list \<Rightarrow> real list \<times> complex" where
  "demod_loop pr [] = ([], pr)"
| "demod_loop pr (current # rest) =
     (let prevConjugate = Complex (Re pr) (- Im pr);
          p = current * prevConjugate;
          (out, pr') = demod_loop current rest
      in (Phase p # out, pr'))"

definition Demodulator_Process ::
  "Demodulator \<Rightarrow> complex list \<Rightarrow> real list option \<times> Demodulator" where
  "Demodulator_Process d samples =
     (if length samples = 0 then (None, d)
      else (let (out, pr) = demod_loop (Demodulator.prev d) samples
            in (Some out, d\<lparr>Demodulator.prev := pr\<rparr>)))"

text \<open>
  Feeding successive blocks to one demodulator and appending the results, as
  \<^verbatim>\<open>TestDemodulator_Statefulness\<close> does.
\<close>

fun Demodulator_blocks :: "Demodulator \<Rightarrow> complex list list \<Rightarrow> real list \<times> Demodulator" where
  "Demodulator_blocks d [] = ([], d)"
| "Demodulator_blocks d (chunk # chunks) =
     (let (outputChunk, d') = Demodulator_Process d chunk;
          (restOutput, d'') = Demodulator_blocks d' chunks
      in (elems outputChunk @ restOutput, d''))"


section \<open>De-emphasis (deemphasis.go)\<close>

record Deemphasis =
  alpha :: real
  prev :: real

definition NewDeemphasis :: "int \<Rightarrow> real \<Rightarrow> Deemphasis" where
  "NewDeemphasis sampleRate tau =
     (let dt = 1 / real_of_int sampleRate;
          a = dt / (tau + dt)
      in \<lparr>alpha = a, prev = 0\<rparr>)"

definition Deemphasis_Filter :: "Deemphasis \<Rightarrow> real \<Rightarrow> real \<times> Deemphasis" where
  "Deemphasis_Filter d x =
     (let d' = d\<lparr>Deemphasis.prev := Deemphasis.prev d + alpha d * (x - Deemphasis.prev d)\<rparr>
      in (Deemphasis.prev d', d'))"

text \<open>The filter after \<open>n\<close> calls of \<^verbatim>\<open>Filter(x)\<close> with the same input, and the output of call \<open>n\<close>
  (counted from 0).\<close>

primrec Deemphasis_after :: "Deemphasis \<Rightarrow> real \<Rightarrow> nat \<Rightarrow> Deemphasis" where
  "Deemphasis_after d x 0 = d"
| "Deemphasis_after d x (Suc n) = snd (Deemphasis_Filter (Deemphasis_after d x n) x)"

definition step_response :: "Deemphasis \<Rightarrow> real \<Rightarrow> nat \<Rightarrow> real" where
  "step_response d x n = fst (Deemphasis_Filter (Deemphasis_after d x n) x)"


section \<open>Decimating FIR filter (fir.go)\<close>

record FIRFilter =
  taps :: "real list"
  state :: "real list"

text \<open>\<^verbatim>\<open>make([]float32, len(taps)-1)\<close> panics on a negative length, that is for an empty kernel.\<close>

definition NewFIRFilter :: "real list \<Rightarrow> go_panic + FIRFilter" where
  "NewFIRFilter ts =
     (if int (length ts) - 1 < 0 then Inl NegativeLen
      else Inr \<lparr>taps = ts, state = replicate (nat (int (length ts) - 1)) 0\<rparr>)"

text \<open>
  The inner loop \<^verbatim>\<open>for j, tap := range f.taps { acc += buffer[start+j] * float32(tap) }\<close>,
  on the taps that are left, the index \<open>j\<close> of the first of them and the accumulator.
\<close>

fun acc_loop :: "real list \<Rightarrow> int \<Rightarrow> real list \<Rightarrow> int \<Rightarrow> real \<Rightarrow> go_panic + real" where
  "acc_loop buffer start [] j acc = Inr acc"
| "acc_loop buffer start (tap # rest) j acc =
     (case go_index buffer (start + j) of
        None \<Rightarrow> Inl IndexOutOfRange
      | Some b \<Rightarrow> acc_loop buffer start rest (j + 1) (acc + b * tap))"

text \<open>
  The outer loop \<^verbatim>\<open>for i := 0; i < outputLen; i++\<close>, from the index \<open>i\<close> on; the result is
  the part of \<^verbatim>\<open>output\<close> from \<open>i\<close> on.
\<close>

function out_loop ::
  "real list \<Rightarrow> real list \<Rightarrow> real \<Rightarrow> int \<Rightarrow> int \<Rightarrow> go_panic + real list" where
  "out_loop buffer ts invRatio outputLen i =
     (if i < outputLen then
        (let inPos = real_of_int i * invRatio;
             start = go_int inPos
         in case acc_loop buffer start ts 0 0 of
              Inl e \<Rightarrow> Inl e
            | Inr acc \<Rightarrow>
                (case out_loop buffer ts invRatio outputLen (i + 1) of
                   Inl e \<Rightarrow> Inl e
                 | Inr rest \<Rightarrow> Inr (acc # rest)))
      else Inr [])"
  by pat_completeness auto
termination
  by (relation "measure (\<lambda>(buffer, ts, invRatio, outputLen, i). nat (outputLen - i))") auto

declare out_loop.simps [simp del]

definition FIRFilter_Process ::
  "FIRFilter \<Rightarrow> real list \<Rightarrow> real \<Rightarrow> go_panic + (real list option \<times> FIRFilter)" where
  "FIRFilter_Process f input ratio =
     (let invRatio = 1 / ratio;
          buffer = state f @ input;
          outputLen = go_int (real_of_int (int (length buffer) - int (length (taps f)) + 1) * ratio)
      in if outputLen \<le> 0 then Inr (None, f\<lparr>state := buffer\<rparr>)
         else (case out_loop buffer (taps f) invRatio outputLen 0 of
                 Inl e \<Rightarrow> Inl e
               | Inr out \<Rightarrow>
                   (case go_slice buffer (int (length buffer) - (int (length (taps f)) - 1))
                           (int (length buffer)) of
                      None \<Rightarrow> Inl SliceBounds
                    | Some st \<Rightarrow> Inr (Some out, f\<lparr>state := st\<rparr>))))"

text \<open>
  Feeding successive blocks to one filter and appending the results, as
  \<^verbatim>\<open>TestFIRFilter_DecimationAndState\<close> does with two blocks.
\<close>

fun FIRFilter_blocks ::
  "FIRFilter \<Rightarrow> real list list \<Rightarrow> real \<Rightarrow> go_panic + (real list \<times> FIRFilter)" where
  "FIRFilter_blocks f [] ratio = Inr ([], f)"
| "FIRFilter_blocks f (chunk # chunks) ratio =
     (case FIRFilter_Process f chunk ratio of
        Inl e \<Rightarrow> Inl e
      | Inr (out, f') \<Rightarrow>
          (case FIRFilter_blocks f' chunks ratio of
             Inl e \<Rightarrow> Inl e
           | Inr (restOutput, f'') \<Rightarrow> Inr (elems out @ restOutput, f'')))"

text \<open>The dot product of the kernel with the window of the buffer that starts at \<open>s\<close>.\<close>

definition dot :: "real list \<Rightarrow> nat \<Rightarrow> real list \<Rightarrow> real" where
  "dot buffer s ts = (\<Sum>k < length ts. buffer ! (s + k) * ts ! k)"


section \<open>Ring buffer (ringbuffer.go)\<close>

text \<open>
  The buffer's storage is shared between the writer and the reader and \<^verbatim>\<open>Read\<close> allocates
  the slice it returns, so arrays live in an explicit heap: a map from addresses to
  arrays and the next free address. \<^verbatim>\<open>make\<close> allocates a zeroed array at the next free
  address and panics on a negative length.
\<close>

type_synonym addr = nat

record heap =
  cells :: "addr \<Rightarrow> 16 word list"
  nextAddr :: addr

definition go_make :: "heap \<Rightarrow> int \<Rightarrow> (addr \<times> heap) option" where
  "go_make h n =
     (if n < 0 then None
      else Some (nextAddr h,
                 h\<lparr>cells := (cells h)(nextAddr h := replicate (nat n) 0),
                   nextAddr := Suc (nextAddr h)\<rparr>))"

text \<open>
  \<^verbatim>\<open>copy(dst, src)\<close> copies \<open>min (len dst) (len src)\<close> elements and returns that number;
  the destination is the window of length \<open>len dst\<close> at offset \<open>off\<close> of the array at \<open>a\<close>.
\<close>

definition go_copy_n :: "'a list \<Rightarrow> 'b list \<Rightarrow> int" where
  "go_copy_n dst src = int (min (length dst) (length src))"

definition go_copy :: "heap \<Rightarrow> addr \<Rightarrow> int \<Rightarrow> 16 word list \<Rightarrow> 16 word list \<Rightarrow> heap" where
  "go_copy h a off dst src =
     (let k = min (length dst) (length src); arr = cells h a
      in h\<lparr>cells := (cells h)(a := take (nat off) arr @ take k src @ drop (nat off + k) arr)\<rparr>)"

text \<open>The integer remainder \<^verbatim>\<open>a % b\<close>: it panics for \<open>b = 0\<close> and takes the sign of \<open>a\<close>.\<close>

definition go_rem :: "int \<Rightarrow> int \<Rightarrow> int option" where
  "go_rem a b = (if b = 0 then None else Some (sgn a * (\<bar>a\<bar> mod \<bar>b\<bar>)))"

text \<open>
  The mutex and the condition variable carry no data. Every method body runs under the
  mutex, so it is one atomic step, except where it waits on the condition variable: a
  call that reaches \<^verbatim>\<open>cond.Wait()\<close> is suspended there and re-evaluates its loop
  condition when it runs again.
\<close>

record RingBuffer =
  buf :: addr
  size :: int
  readIndex :: int
  writeIndex :: int
  closed :: bool

definition New :: "heap \<Rightarrow> int \<Rightarrow> go_panic + (RingBuffer \<times> heap)" where
  "New h sz =
     (case go_make h sz of
        None \<Rightarrow> Inl NegativeLen
      | Some (a, h') \<Rightarrow>
          Inr (\<lparr>buf = a, size = sz, readIndex = 0, writeIndex = 0, closed = False\<rparr>, h'))"

definition AvailableWrite :: "RingBuffer \<Rightarrow> int" where
  "AvailableWrite rb =
     (if writeIndex rb \<ge> readIndex rb then size rb - (writeIndex rb - readIndex rb) - 1
      else readIndex rb - writeIndex rb - 1)"

definition AvailableRead :: "RingBuffer \<Rightarrow> int" where
  "AvailableRead rb =
     (if writeIndex rb \<ge> readIndex rb then writeIndex rb - readIndex rb
      else size rb - readIndex rb + writeIndex rb)"

definition Close :: "RingBuffer \<Rightarrow> RingBuffer" where
  "Close rb = rb\<lparr>closed := True\<rparr>"

text \<open>
  \<^verbatim>\<open>Write\<close> either returns, or is suspended in \<^verbatim>\<open>cond.Wait()\<close> with \<open>i\<close> samples of
  \<^verbatim>\<open>data\<close> copied so far, or panics. The copy loop \<^verbatim>\<open>for i := 0; i < n;\<close> is
  \<open>Write_loop\<close>; a suspended call continues as \<open>Write_loop\<close> on the state it finds and its
  own \<open>i\<close>. The loop has no bound in the source, so it is a partial function:
  \<^term>\<open>None\<close> would be a run that never returns.
\<close>

datatype write_result =
  WriteDone RingBuffer heap
| WriteWait RingBuffer heap int
| WritePanic go_panic

partial_function (option) Write_loop ::
  "RingBuffer \<Rightarrow> heap \<Rightarrow> 16 word list \<Rightarrow> int \<Rightarrow> write_result option" where
  "Write_loop rb h data i =
     (if i < int (length data) then
        (if AvailableWrite rb = 0 then Some (WriteWait rb h i)
         else if writeIndex rb \<ge> readIndex rb then
           (case go_slice (cells h (buf rb)) (writeIndex rb) (int (length (cells h (buf rb)))) of
              None \<Rightarrow> Some (WritePanic SliceBounds)
            | Some dst \<Rightarrow>
               (case go_slice data i (int (length data)) of
                  None \<Rightarrow> Some (WritePanic SliceBounds)
                | Some src \<Rightarrow>
                   (let written = go_copy_n dst src;
                        h' = go_copy h (buf rb) (writeIndex rb) dst src
                    in case go_rem (writeIndex rb + written) (size rb) of
                         None \<Rightarrow> Some (WritePanic DivideByZero)
                       | Some w \<Rightarrow> Write_loop (rb\<lparr>writeIndex := w\<rparr>) h' data (i + written))))
         else
           (case go_slice (cells h (buf rb)) (writeIndex rb) (readIndex rb - 1) of
              None \<Rightarrow> Some (WritePanic SliceBounds)
            | Some dst \<Rightarrow>
               (case go_slice data i (int (length data)) of
                  None \<Rightarrow> Some (WritePanic SliceBounds)
                | Some src \<Rightarrow>
                   (let written = go_copy_n dst src;
                        h' = go_copy h (buf rb) (writeIndex rb) dst src
                    in Write_loop (rb\<lparr>writeIndex := writeIndex rb + written\<rparr>) h' data
                         (i + written)))))
      else Some (WriteDone rb h))"

definition Write :: "RingBuffer \<Rightarrow> heap \<Rightarrow> 16 word list \<Rightarrow> write_result option" where
  "Write rb h data =
     (if closed rb then Some (WritePanic WriteToClosed) else Write_loop rb h data 0)"

text \<open>
  \<^verbatim>\<open>Read\<close> either is suspended in \<^verbatim>\<open>cond.Wait()\<close> (nothing has changed then), or panics,
  or returns \<^verbatim>\<open>nil\<close> or the address of the slice it allocated, with the new buffer and
  heap.
\<close>

datatype read_result =
  ReadWait
| ReadPanic go_panic
| ReadReturn "addr option" RingBuffer heap

definition Read :: "RingBuffer \<Rightarrow> heap \<Rightarrow> int \<Rightarrow> read_result" where
  "Read rb h n =
     (if \<not> closed rb \<and> AvailableRead rb < n then ReadWait
      else if closed rb \<and> AvailableRead rb = 0 then ReadReturn None rb h
      else
        (let readSize = (if AvailableRead rb < n then AvailableRead rb else n)
         in if readSize = 0 then ReadReturn None rb h
            else
              (case go_make h readSize of
                 None \<Rightarrow> ReadPanic NegativeLen
               | Some (data, h1) \<Rightarrow>
                  (let copied =
                     (if readIndex rb + readSize \<le> size rb then
                        (case go_slice (cells h1 (buf rb)) (readIndex rb) (readIndex rb + readSize) of
                           None \<Rightarrow> Inl SliceBounds
                         | Some src \<Rightarrow> Inr (go_copy h1 data 0 (cells h1 data) src))
                      else
                        (let part1 = size rb - readIndex rb
                         in case go_slice (cells h1 (buf rb)) (readIndex rb)
                                   (int (length (cells h1 (buf rb)))) of
                              None \<Rightarrow> Inl SliceBounds
                            | Some src1 \<Rightarrow>
                               (let h2 = go_copy h1 data 0 (cells h1 data) src1
                                in case go_slice (cells h2 data) part1
                                          (int (length (cells h2 data))) of
                                     None \<Rightarrow> Inl SliceBounds
                                   | Some dst2 \<Rightarrow>
                                      (case go_slice (cells h2 (buf rb)) 0 (readSize - part1) of
                                         None \<Rightarrow> Inl SliceBounds
                                       | Some src2 \<Rightarrow> Inr (go_copy h2 data part1 dst2 src2)))))
                   in case copied of
                        Inl e \<Rightarrow> ReadPanic e
                      | Inr h' \<Rightarrow>
                         (case go_rem (readIndex rb + readSize) (size rb) of
                            None \<Rightarrow> ReadPanic DivideByZero
                          | Some r \<Rightarrow> ReadReturn (Some data) (rb\<lparr>readIndex := r\<rparr>) h')))))"

text \<open>The heap before anything is allocated.\<close>

definition heap0 :: heap where "heap0 = \<lparr>cells = (\<lambda>_. []), nextAddr = 0\<rparr>"

text \<open>
  The states \<^verbatim>\<open>New\<close> creates for a positive size and the methods maintain: the array has
  \<^verbatim>\<open>size\<close> elements, both cursors are inside it, and the array is allocated.
\<close>

definition wellformed :: "RingBuffer \<Rightarrow> heap \<Rightarrow> bool" where
  "wellformed rb h \<longleftrightarrow>
     0 < size rb \<and> int (length (cells h (buf rb))) = size rb
     \<and> 0 \<le> readIndex rb \<and> readIndex rb < size rb
     \<and> 0 \<le> writeIndex rb \<and> writeIndex rb < size rb
     \<and> buf rb < nextAddr h"

text \<open>
  The samples the cursors delimit, in reading order: from \<^verbatim>\<open>readIndex\<close> up to
  \<^verbatim>\<open>writeIndex\<close>, around the end of the array when \<^verbatim>\<open>writeIndex < readIndex\<close>.
\<close>

definition pending :: "RingBuffer \<Rightarrow> heap \<Rightarrow> 16 word list" where
  "pending rb h =
     (let arr = cells h (buf rb)
      in if writeIndex rb \<ge> readIndex rb
         then take (nat (writeIndex rb - readIndex rb)) (drop (nat (readIndex rb)) arr)
         else drop (nat (readIndex rb)) arr @ take (nat (writeIndex rb)) arr)"

text \<open>A \<^verbatim>\<open>Write\<close> that has returned, or waits on a full buffer, in a well-formed state.\<close>

definition write_ok :: "write_result \<Rightarrow> bool" where
  "write_ok res =
     (case res of
        WriteDone rb h \<Rightarrow> wellformed rb h
      | WriteWait rb h i \<Rightarrow> wellformed rb h \<and> AvailableWrite rb = 0
      | WritePanic e \<Rightarrow> False)"


section \<open>Demodulator: properties\<close>

lemma Atan2_range: "- pi < Atan2 y x \<and> Atan2 y x \<le> pi"
proof -
  have b: "- (pi / 2) < arctan (y / x)" "arctan (y / x) < pi / 2"
    using arctan_lbound [of "y / x"] arctan_ubound [of "y / x"] by simp_all
  have p: "0 < pi" by simp
  show ?thesis
    unfolding Atan2_def Let_def using b p by (auto simp: not_le)
qed

text \<open>\<^verbatim>\<open>cmplx.Phase\<close> is the principal argument of a complex number.\<close>

lemma Atan2_cos_sin:
  assumes "x \<noteq> 0 \<or> y \<noteq> 0"
  shows "cos (Atan2 y x) = x / sqrt (x\<^sup>2 + y\<^sup>2) \<and> sin (Atan2 y x) = y / sqrt (x\<^sup>2 + y\<^sup>2)"
proof (cases "y = 0")
  case True
  with assms have "x \<noteq> 0" by simp
  then show ?thesis using True
    by (cases "0 \<le> x") (simp_all add: Atan2_def real_sqrt_abs abs_if)
next
  case y: False
  show ?thesis
  proof (cases "x = 0")
    case True
    then show ?thesis using y
      by (cases "0 < y") (simp_all add: Atan2_def real_sqrt_abs abs_if)
  next
    case x: False
    define q where "q = arctan (y / x)"
    define r where "r = sqrt (x\<^sup>2 + y\<^sup>2)"
    have r: "0 < r" using x by (simp add: r_def sum_power2_gt_zero_iff)
    have "1 + (y / x)\<^sup>2 = (x\<^sup>2 + y\<^sup>2) / x\<^sup>2"
      using x by (simp add: field_simps power_divide)
    then have s: "sqrt (1 + (y / x)\<^sup>2) = r / \<bar>x\<bar>"
      by (simp add: real_sqrt_divide r_def)
    have c: "cos q = \<bar>x\<bar> / r"
      unfolding q_def cos_arctan s by simp
    have sn: "sin q = (y / x) * \<bar>x\<bar> / r"
      unfolding q_def sin_arctan s by simp
    show ?thesis
    proof (cases "x < 0")
      case False
      with x have "0 < x" by simp
      then show ?thesis using y x c sn
        by (simp add: Atan2_def Let_def q_def [symmetric] r_def [symmetric])
    next
      case True
      have cm: "- cos q = x / r" using True c by simp
      have sm: "- sin q = y / r" using True sn x by simp
      show ?thesis using y x True cm sm
        by (simp add: Atan2_def Let_def q_def [symmetric] r_def [symmetric])
    qed
  qed
qed

lemma Phase_eq_Arg: "Phase z = Arg z"
proof (cases "z = 0")
  case True
  then show ?thesis by (simp add: Phase_def Atan2_def Arg_zero)
next
  case False
  then have nz: "Re z \<noteq> 0 \<or> Im z \<noteq> 0" by (auto simp: complex_eq_iff)
  from Atan2_cos_sin [OF nz] have "sgn z = cis (Phase z)"
    by (simp add: complex_eq_iff Phase_def cmod_def)
  moreover have "- pi < Phase z" "Phase z \<le> pi"
    using Atan2_range [of "Im z" "Re z"] by (simp_all add: Phase_def)
  ultimately show ?thesis by (rule cis_Arg_unique [symmetric])
qed

lemma demod_loop_length: "length (fst (demod_loop pr samples)) = length samples"
  by (induction samples arbitrary: pr) (simp_all add: Let_def case_prod_beta)

lemma demod_loop_last:
  "samples \<noteq> [] \<Longrightarrow> snd (demod_loop pr samples) = last samples"
proof (induction samples arbitrary: pr)
  case Nil
  then show ?case by simp
next
  case (Cons c cs)
  show ?case
  proof (cases "cs = []")
    case True
    then show ?thesis by simp
  next
    case False
    with Cons.IH [of c] show ?thesis
      by (simp add: Let_def case_prod_beta)
  qed
qed

lemma demod_loop_snd: "snd (demod_loop pr samples) = last (pr # samples)"
  using demod_loop_last [of samples pr] by (cases "samples = []") simp_all

lemma demod_loop_nth:
  "i < length samples \<Longrightarrow>
     fst (demod_loop pr samples) ! i = Phase (samples ! i * cnj ((pr # samples) ! i))"
proof (induction samples arbitrary: pr i)
  case Nil
  then show ?case by simp
next
  case (Cons c cs)
  have conj: "Complex (Re pr) (- Im pr) = cnj pr"
    by (simp add: complex_eq_iff)
  show ?case
  proof (cases i)
    case 0
    then show ?thesis by (simp add: Let_def conj case_prod_beta)
  next
    case (Suc k)
    with Cons.prems have "k < length cs" by simp
    from Cons.IH [OF this, of c] Suc show ?thesis
      by (simp add: Let_def case_prod_beta)
  qed
qed

lemma demod_loop_append:
  "demod_loop pr (xs @ ys) =
     (fst (demod_loop pr xs) @ fst (demod_loop (snd (demod_loop pr xs)) ys),
      snd (demod_loop (snd (demod_loop pr xs)) ys))"
  by (induction xs arbitrary: pr) (simp_all add: Let_def case_prod_beta)

lemma Demodulator_Process_elems:
  "elems (fst (Demodulator_Process d samples)) = fst (demod_loop (Demodulator.prev d) samples)"
  by (cases samples) (simp_all add: Demodulator_Process_def elems_def Let_def case_prod_beta)

lemma Demodulator_Process_state:
  "snd (Demodulator_Process d samples) =
     d\<lparr>Demodulator.prev := snd (demod_loop (Demodulator.prev d) samples)\<rparr>"
  by (cases samples) (simp_all add: Demodulator_Process_def Let_def case_prod_beta)

lemma Demodulator_blocks_loop:
  "fst (Demodulator_blocks d chunks) = fst (demod_loop (Demodulator.prev d) (concat chunks))"
proof (induction chunks arbitrary: d)
  case Nil
  then show ?case by simp
next
  case (Cons c cs)
  obtain o1 d1 where p: "Demodulator_Process d c = (o1, d1)"
    by (cases "Demodulator_Process d c")
  have o1: "elems o1 = fst (demod_loop (Demodulator.prev d) c)"
    using Demodulator_Process_elems [of d c] p by simp
  have d1: "Demodulator.prev d1 = snd (demod_loop (Demodulator.prev d) c)"
    using Demodulator_Process_state [of d c] p by simp
  show ?case
    using Cons.IH [of d1] by (simp add: p o1 d1 demod_loop_append case_prod_beta)
qed

text \<open>
  C9. Applied to an empty block, \<^verbatim>\<open>Process\<close> returns \<^verbatim>\<open>nil\<close> and leaves the demodulator,
  its carried sample included, as it was, whatever the carried state is.
\<close>

theorem Demodulator_Process_empty: "Demodulator_Process d [] = (None, d)"
  by (simp add: Demodulator_Process_def)

text \<open>
  C5. For every split of a complex input into successive blocks, the concatenation of the
  outputs of \<^verbatim>\<open>Process\<close> over the blocks is the output of one call on the whole input,
  when both runs start from the same demodulator (the fresh one in particular). The
  equality holds at every sample, the first one included.
\<close>

theorem Demodulator_chunk_invariance:
  "fst (Demodulator_blocks d chunks) = elems (fst (Demodulator_Process d (concat chunks)))"
  by (simp add: Demodulator_blocks_loop Demodulator_Process_elems)


section \<open>Decimating FIR filter: properties\<close>

lemma go_int_floor: "0 \<le> x \<Longrightarrow> go_int x = \<lfloor>x\<rfloor>"
  by (simp add: go_int_def)

lemma go_int_nonpos_iff: "go_int x \<le> 0 \<longleftrightarrow> \<lfloor>x\<rfloor> \<le> 0"
proof (cases "0 \<le> x")
  case True
  then show ?thesis by (simp add: go_int_def)
next
  case False
  then have "x < 0" by simp
  then have "\<lceil>x\<rceil> \<le> 0" "\<lfloor>x\<rfloor> \<le> 0" by (simp_all add: ceiling_le_iff floor_le_iff)
  with False show ?thesis by (simp add: go_int_def)
qed

lemma go_int_pos: "0 < go_int x \<Longrightarrow> go_int x = \<lfloor>x\<rfloor> \<and> 0 \<le> x"
  by (cases "0 \<le> x") (simp_all add: go_int_def ceiling_le_iff not_le less_imp_le)

lemma acc_loop_dot:
  "0 \<le> start + j \<Longrightarrow> nat (start + j) + length ts \<le> length buffer \<Longrightarrow>
     acc_loop buffer start ts j acc
       = Inr (acc + (\<Sum>k < length ts. buffer ! (nat (start + j) + k) * ts ! k))"
proof (induction ts arbitrary: j acc)
  case Nil
  then show ?case by simp
next
  case (Cons tap rest)
  have idx: "go_index buffer (start + j) = Some (buffer ! nat (start + j))"
    using Cons.prems by (simp add: go_index_def)
  have n: "nat (start + (j + 1)) = Suc (nat (start + j))"
    using Cons.prems(1) by simp
  have "acc_loop buffer start (tap # rest) j acc
          = acc_loop buffer start rest (j + 1) (acc + buffer ! nat (start + j) * tap)"
    by (simp add: idx)
  also have "\<dots> = Inr (acc + buffer ! nat (start + j) * tap
                     + (\<Sum>k < length rest. buffer ! (nat (start + (j + 1)) + k) * rest ! k))"
    using Cons.prems by (intro Cons.IH) simp_all
  also have "acc + buffer ! nat (start + j) * tap
                     + (\<Sum>k < length rest. buffer ! (nat (start + (j + 1)) + k) * rest ! k)
             = acc + (\<Sum>k < length (tap # rest). buffer ! (nat (start + j) + k) * (tap # rest) ! k)"
  proof -
    let ?g = "\<lambda>k. buffer ! (nat (start + j) + k) * (tap # rest) ! k"
    have "(\<Sum>k < Suc (length rest). ?g k) = ?g 0 + (\<Sum>k < length rest. ?g (Suc k))"
      by (rule sum.lessThan_Suc_shift)
    then show ?thesis by (simp add: n)
  qed
  finally show ?case .
qed

lemma acc_loop_start:
  "0 \<le> start \<Longrightarrow> nat start + length ts \<le> length buffer \<Longrightarrow>
     acc_loop buffer start ts 0 0 = Inr (dot buffer (nat start) ts)"
  using acc_loop_dot [of start 0 ts buffer 0] by (simp add: dot_def)

text \<open>The start offsets of outputs below outputLen stay inside the first L window positions.\<close>

lemma start_bounds:
  assumes r: "0 < ratio" and i: "0 \<le> i" "i < go_int (real_of_int L * ratio)"
  shows "0 \<le> go_int (real_of_int i * (1 / ratio)) \<and> go_int (real_of_int i * (1 / ratio)) < L"
proof -
  have pos: "0 < go_int (real_of_int L * ratio)" using i by simp
  from go_int_pos [OF pos] have fl: "go_int (real_of_int L * ratio) = \<lfloor>real_of_int L * ratio\<rfloor>"
    by simp
  have "i + 1 \<le> \<lfloor>real_of_int L * ratio\<rfloor>" using i(2) fl by simp
  then have "real_of_int (i + 1) \<le> real_of_int L * ratio"
    by (simp only: le_floor_iff)
  then have "real_of_int i + 1 \<le> real_of_int L * ratio" by simp
  then have "(real_of_int i + 1) / ratio \<le> real_of_int L"
    using r by (simp add: pos_divide_le_eq)
  moreover have "real_of_int i / ratio < (real_of_int i + 1) / ratio"
    using r by (simp add: divide_strict_right_mono)
  ultimately have lt: "real_of_int i * (1 / ratio) < real_of_int L" by simp
  have nn: "0 \<le> real_of_int i * (1 / ratio)" using r i(1) by simp
  have "\<lfloor>real_of_int i * (1 / ratio)\<rfloor> < L" using lt by (simp only: floor_less_iff)
  moreover have "0 \<le> \<lfloor>real_of_int i * (1 / ratio)\<rfloor>" using nn by simp
  ultimately show ?thesis using nn by (simp add: go_int_def)
qed

lemma out_loop_map:
  assumes "\<And>k. i \<le> k \<Longrightarrow> k < outputLen \<Longrightarrow>
             0 \<le> go_int (real_of_int k * invRatio)
             \<and> nat (go_int (real_of_int k * invRatio)) + length ts \<le> length buffer"
  shows "out_loop buffer ts invRatio outputLen i
           = Inr (map (\<lambda>k. dot buffer (nat (go_int (real_of_int k * invRatio))) ts)
                    [i..outputLen - 1])"
  using assms
proof (induction buffer ts invRatio outputLen i rule: out_loop.induct)
  case (1 buffer ts invRatio outputLen i)
  show ?case
  proof (cases "i < outputLen")
    case False
    then show ?thesis by (simp add: out_loop.simps [of _ _ _ _ i])
  next
    case True
    have b: "0 \<le> go_int (real_of_int i * invRatio)"
      "nat (go_int (real_of_int i * invRatio)) + length ts \<le> length buffer"
      using "1.prems" [of i] True by simp_all
    have a: "acc_loop buffer (go_int (real_of_int i * invRatio)) ts 0 0
               = Inr (dot buffer (nat (go_int (real_of_int i * invRatio))) ts)"
      using b by (rule acc_loop_start)
    have ih: "out_loop buffer ts invRatio outputLen (i + 1)
           = Inr (map (\<lambda>k. dot buffer (nat (go_int (real_of_int k * invRatio))) ts)
                    [i + 1..outputLen - 1])"
      using True a "1.prems" by (intro "1.IH" [OF True refl refl a]) simp_all
    have u: "[i..outputLen - 1] = i # [i + 1..outputLen - 1]"
      using True by (simp add: upto_rec1)
    show ?thesis
      by (subst out_loop.simps) (simp add: True a ih u Let_def del: out_loop.simps)
  qed
qed


lemma upto_as_upt: "[0..n - 1] = map int [0..<nat n]"
proof (rule nth_equalityI)
  show "length [0..n - 1] = length (map int [0..<nat n])" by simp
next
  fix i assume "i < length [0..n - 1]"
  then have "i < nat n" by simp
  then show "[0..n - 1] ! i = map int [0..<nat n] ! i"
    by (simp add: nth_upto)
qed

lemma FIRFilter_Process_underrun:
  assumes "\<lfloor>real_of_int (int (length (state f @ input)) - int (length (taps f)) + 1) * ratio\<rfloor> \<le> 0"
  shows "FIRFilter_Process f input ratio = Inr (None, f\<lparr>state := state f @ input\<rparr>)"
  using assms unfolding FIRFilter_Process_def Let_def
  by (simp only: go_int_nonpos_iff if_True)

lemma FIRFilter_Process_output:
  assumes taps: "taps f \<noteq> []"
    and r: "0 < ratio"
    and buffer: "buffer = state f @ input"
    and n: "n = \<lfloor>real_of_int (int (length buffer) - int (length (taps f)) + 1) * ratio\<rfloor>"
    and pos: "0 < n"
  shows "FIRFilter_Process f input ratio
           = Inr (Some (map (\<lambda>k. dot buffer (nat \<lfloor>real k / ratio\<rfloor>) (taps f)) [0..<nat n]),
                  f\<lparr>state := drop (length buffer - (length (taps f) - 1)) buffer\<rparr>)"
    and "length (taps f) - 1 \<le> length buffer"
    and "\<And>k. k < nat n \<Longrightarrow> nat \<lfloor>real k / ratio\<rfloor> + length (taps f) \<le> length buffer"
proof -
  define L where "L = int (length buffer) - int (length (taps f)) + 1"
  have tl: "0 < length (taps f)" using taps by simp
  have prod: "1 \<le> real_of_int L * ratio"
  proof -
    have "1 \<le> \<lfloor>real_of_int L * ratio\<rfloor>" using pos n by (simp add: L_def)
    then show ?thesis by (simp only: le_floor_iff)
  qed
  have L1: "1 \<le> L"
  proof (rule ccontr)
    assume "\<not> 1 \<le> L"
    then have "real_of_int L \<le> 0" by simp
    with r have "real_of_int L * ratio \<le> 0" by (simp add: mult_nonpos_nonneg)
    with prod show False by simp
  qed
  show lenb: "length (taps f) - 1 \<le> length buffer"
    using L1 unfolding L_def by linarith
  have gi: "go_int (real_of_int L * ratio) = n"
    using prod by (simp add: go_int_def n L_def)
  have sb: "0 \<le> go_int (real_of_int k * (1 / ratio)) \<and> go_int (real_of_int k * (1 / ratio)) < L"
    if "0 \<le> k" "k < n" for k
    using start_bounds [OF r that(1), of L] that(2) gi by simp
  have fits: "nat (go_int (real_of_int k * (1 / ratio))) + length (taps f) \<le> length buffer"
    if "0 \<le> k" "k < n" for k
  proof -
    from sb [OF that] have "0 \<le> go_int (real_of_int k * (1 / ratio))"
      and "go_int (real_of_int k * (1 / ratio)) + int (length (taps f)) \<le> int (length buffer)"
      by (simp_all add: L_def)
    then show ?thesis by linarith
  qed
  have gfl: "go_int (real_of_int k * (1 / ratio)) = \<lfloor>real_of_int k / ratio\<rfloor>" if "0 \<le> k" for k
    using that r by (simp add: go_int_def)
  show "nat \<lfloor>real k / ratio\<rfloor> + length (taps f) \<le> length buffer" if "k < nat n" for k
    using fits [of "int k"] gfl [of "int k"] that by simp
  have loop: "out_loop buffer (taps f) (1 / ratio) n 0
           = Inr (map (\<lambda>k. dot buffer (nat (go_int (real_of_int k * (1 / ratio)))) (taps f))
                    [0..n - 1])"
    by (rule out_loop_map) (use sb fits in simp)
  have "map (\<lambda>k. dot buffer (nat (go_int (real_of_int k * (1 / ratio)))) (taps f)) [0..n - 1]
          = map (\<lambda>k. dot buffer (nat \<lfloor>real k / ratio\<rfloor>) (taps f)) [0..<nat n]"
    using gfl [of "int k" for k] by (simp add: upto_as_upt comp_def)
  with loop have loop': "out_loop buffer (taps f) (1 / ratio) n 0
           = Inr (map (\<lambda>k. dot buffer (nat \<lfloor>real k / ratio\<rfloor>) (taps f)) [0..<nat n])"
    by simp
  have sl: "go_slice buffer (int (length buffer) - (int (length (taps f)) - 1)) (int (length buffer))
              = Some (drop (length buffer - (length (taps f) - 1)) buffer)"
  proof -
    define lo where "lo = int (length buffer) - (int (length (taps f)) - 1)"
    have lo: "0 \<le> lo" "lo \<le> int (length buffer)"
      using lenb tl unfolding lo_def by linarith+
    have nlo: "nat lo = length buffer - (length (taps f) - 1)"
      using lenb tl unfolding lo_def by linarith
    have "length (drop (nat lo) buffer) \<le> nat (int (length buffer) - lo)"
      using lo by simp
    then have "take (nat (int (length buffer) - lo)) (drop (nat lo) buffer) = drop (nat lo) buffer"
      by (rule take_all)
    then show ?thesis
      unfolding lo_def [symmetric] using lo by (simp add: go_slice_def nlo)
  qed
  show "FIRFilter_Process f input ratio
           = Inr (Some (map (\<lambda>k. dot buffer (nat \<lfloor>real k / ratio\<rfloor>) (taps f)) [0..<nat n]),
                  f\<lparr>state := drop (length buffer - (length (taps f) - 1)) buffer\<rparr>)"
    unfolding FIRFilter_Process_def Let_def buffer [symmetric] L_def [symmetric] gi
    using pos by (simp add: loop' sl)
qed


lemma FIRFilter_output_ratio_pos:
  assumes inv: "length (taps f) - 1 \<le> length (state f)" and taps: "taps f \<noteq> []"
    and pos: "0 < \<lfloor>real_of_int (int (length (state f @ input)) - int (length (taps f)) + 1) * ratio\<rfloor>"
  shows "0 < ratio"
proof (rule ccontr)
  assume "\<not> 0 < ratio"
  then have "ratio \<le> 0" by simp
  moreover have "0 \<le> int (length (state f @ input)) - int (length (taps f)) + 1"
    using inv taps by simp
  ultimately have
    "real_of_int (int (length (state f @ input)) - int (length (taps f)) + 1) * ratio \<le> 0"
    by (simp add: mult_nonneg_nonpos)
  then have "\<lfloor>real_of_int (int (length (state f @ input)) - int (length (taps f)) + 1) * ratio\<rfloor> \<le> 0"
    by (simp add: floor_le_iff)
  with pos show False by simp
qed

text \<open>
  Every tail the filter stores has at least \<open>tapCount - 1\<close> samples: \<^verbatim>\<open>NewFIRFilter\<close> creates
  one of exactly that length and \<^verbatim>\<open>Process\<close> keeps the bound.
\<close>

lemma FIRFilter_Process_tail:
  assumes taps: "taps f \<noteq> []" and inv: "length (taps f) - 1 \<le> length (state f)"
    and p: "FIRFilter_Process f input ratio = Inr (out, f')"
  shows "taps f' = taps f \<and> length (taps f') - 1 \<le> length (state f')"
proof -
  define n where
    "n = \<lfloor>real_of_int (int (length (state f @ input)) - int (length (taps f)) + 1) * ratio\<rfloor>"
  show ?thesis
  proof (cases "n \<le> 0")
    case True
    then have "FIRFilter_Process f input ratio = Inr (None, f\<lparr>state := state f @ input\<rparr>)"
      unfolding n_def by (rule FIRFilter_Process_underrun)
    with p inv show ?thesis by auto
  next
    case False
    then have pos: "0 < n" by simp
    have r: "0 < ratio"
      using FIRFilter_output_ratio_pos [OF inv taps, of input ratio] pos by (simp add: n_def)
    note o = FIRFilter_Process_output [OF taps r refl n_def pos]
    from o(1) p have "f' = f\<lparr>state := drop (length (state f @ input) - (length (taps f) - 1))
                                       (state f @ input)\<rparr>"
      by simp
    with o(2) show ?thesis by simp
  qed
qed



text \<open>
  C2, as stated, fails: with the kernel \<open>[1/2, 1/2]\<close> and ratio \<open>1/2\<close>, the input
  \<open>1, \<dots>, 6\<close> gives \<open>[1/2, 5/2, 9/2]\<close> in one call and \<open>[1/2, 7/2]\<close> when it is split into
  two blocks of three samples: the second call restarts its decimation phase at the
  block boundary. All the numbers involved are exact in \<^verbatim>\<open>float32\<close> and \<^verbatim>\<open>float64\<close>.
\<close>

theorem FIRFilter_chunk_invariance_counterexample:
  "NewFIRFilter [1 / 2, 1 / 2] = Inr \<lparr>taps = [1 / 2, 1 / 2], state = [0]\<rparr>
   \<and> FIRFilter_blocks \<lparr>taps = [1 / 2, 1 / 2], state = [0]\<rparr> [[1, 2, 3], [4, 5, 6]] (1 / 2)
       = Inr ([1 / 2, 7 / 2], \<lparr>taps = [1 / 2, 1 / 2], state = [6]\<rparr>)
   \<and> FIRFilter_Process \<lparr>taps = [1 / 2, 1 / 2], state = [0]\<rparr> (concat [[1, 2, 3], [4, 5, 6]]) (1 / 2)
       = Inr (Some [1 / 2, 5 / 2, 9 / 2], \<lparr>taps = [1 / 2, 1 / 2], state = [6]\<rparr>)
   \<and> [1 / 2, 7 / 2] \<noteq> elems (Some [1 / 2, 5 / 2, 9 / 2 :: real])"
  by (simp add: NewFIRFilter_def FIRFilter_Process_def out_loop.simps go_int_def go_index_def
      go_slice_def elems_def Let_def)


section \<open>Ring buffer: properties\<close>

lemma pending_length:
  assumes "wellformed rb h"
  shows "int (length (pending rb h)) = AvailableRead rb"
  using assms unfolding wellformed_def pending_def AvailableRead_def Let_def
  by (auto simp: min_def) 

lemma go_rem_nonneg: "0 \<le> a \<Longrightarrow> 0 < b \<Longrightarrow> go_rem a b = Some (a mod b)"
  by (cases "a = 0") (simp_all add: go_rem_def)

text \<open>The first readSize pending samples, read off the array in one or two pieces.\<close>

lemma take_pending_contiguous:
  assumes wf: "wellformed rb h" and k: "0 < k" "k \<le> AvailableRead rb"
    and fit: "readIndex rb + k \<le> size rb"
  shows "take (nat k) (pending rb h)
           = take (nat k) (drop (nat (readIndex rb)) (cells h (buf rb)))"
proof (cases "writeIndex rb \<ge> readIndex rb")
  case True
  then have "nat k \<le> nat (writeIndex rb - readIndex rb)"
    using k by (simp add: AvailableRead_def)
  then show ?thesis using True by (simp add: pending_def Let_def min_def)
next
  case False
  have "nat k \<le> length (drop (nat (readIndex rb)) (cells h (buf rb)))"
    using wf fit k unfolding wellformed_def by simp linarith
  then show ?thesis using False by (simp add: pending_def Let_def)
qed

lemma take_pending_wrapped:
  assumes wf: "wellformed rb h" and k: "0 < k" "k \<le> AvailableRead rb"
    and wrap: "\<not> readIndex rb + k \<le> size rb"
  shows "take (nat k) (pending rb h)
           = drop (nat (readIndex rb)) (cells h (buf rb))
             @ take (nat (k - (size rb - readIndex rb))) (cells h (buf rb))"
    and "k - (size rb - readIndex rb) \<le> writeIndex rb"
    and "writeIndex rb < readIndex rb"
proof -
  show lt: "writeIndex rb < readIndex rb"
  proof (rule ccontr)
    assume "\<not> writeIndex rb < readIndex rb"
    then have "AvailableRead rb = writeIndex rb - readIndex rb" by (simp add: AvailableRead_def)
    with k wrap wf show False unfolding wellformed_def by linarith
  qed
  then have av: "AvailableRead rb = size rb - readIndex rb + writeIndex rb"
    by (simp add: AvailableRead_def)
  show le: "k - (size rb - readIndex rb) \<le> writeIndex rb" using k av by linarith
  have len: "length (cells h (buf rb)) - nat (readIndex rb) = nat (size rb - readIndex rb)"
    using wf unfolding wellformed_def by linarith
  have sub: "nat k - nat (size rb - readIndex rb) = nat (k - (size rb - readIndex rb))"
    using wf k wrap unfolding wellformed_def by linarith
  have mn: "min (nat (k - (size rb - readIndex rb))) (nat (writeIndex rb))
              = nat (k - (size rb - readIndex rb))"
    using le by simp
  have big: "length (cells h (buf rb)) - nat (readIndex rb) \<le> nat k"
    using len wrap k wf unfolding wellformed_def by linarith
  show "take (nat k) (pending rb h)
           = drop (nat (readIndex rb)) (cells h (buf rb))
             @ take (nat (k - (size rb - readIndex rb))) (cells h (buf rb))"
    using lt big by (simp add: pending_def Let_def len sub mn)
qed


lemma drop_len_append: "length xs = n \<Longrightarrow> drop n (xs @ ys) = ys"
  by simp

lemma take_len_append: "length xs = n \<Longrightarrow> take n (xs @ ys) = xs"
  by simp

lemma go_copy_whole:
  assumes "length src = length (cells h a)" "dst = cells h a"
  shows "go_copy h a 0 dst src = h\<lparr>cells := (cells h)(a := src)\<rparr>"
  using assms by (simp add: go_copy_def Let_def)

lemma go_copy_tail:
  assumes "nat off \<le> length (cells h a)" "length dst = length (cells h a) - nat off"
    "length src = length dst"
  shows "go_copy h a off dst src = h\<lparr>cells := (cells h)(a := take (nat off) (cells h a) @ src)\<rparr>"
  using assms by (simp add: go_copy_def Let_def)

lemma go_copy_head:
  assumes "length src \<le> length (cells h a)" "dst = cells h a"
  shows "go_copy h a 0 dst src
           = h\<lparr>cells := (cells h)(a := src @ drop (length src) (cells h a))\<rparr>"
  using assms by (simp add: go_copy_def Let_def min_def)

lemma Read_data:
  assumes wf: "wellformed rb h"
    and go: "closed rb \<or> n \<le> AvailableRead rb"
    and av: "0 < AvailableRead rb" and n: "0 < n"
  shows "Read rb h n
           = ReadReturn (Some (nextAddr h))
               (rb\<lparr>readIndex := (readIndex rb + min n (AvailableRead rb)) mod size rb\<rparr>)
               (h\<lparr>cells := (cells h)(nextAddr h := take (nat (min n (AvailableRead rb))) (pending rb h)),
                  nextAddr := Suc (nextAddr h)\<rparr>)"
proof -
  define k where "k = min n (AvailableRead rb)"
  define a where "a = nextAddr h"
  define arr where "arr = cells h (buf rb)"
  define h1 where "h1 = h\<lparr>cells := (cells h)(a := replicate (nat k) 0), nextAddr := Suc a\<rparr>"
  have k: "0 < k" "k \<le> AvailableRead rb" using av n by (simp_all add: k_def)
  have rs: "(if AvailableRead rb < n then AvailableRead rb else n) = k"
    by (simp add: k_def min_def)
  have mk: "go_make h k = Some (a, h1)"
    using k by (simp add: go_make_def h1_def a_def)
  have ne: "buf rb \<noteq> a" using wf by (simp add: wellformed_def a_def)
  have arr1: "cells h1 (buf rb) = arr" using ne by (simp add: h1_def arr_def)
  have data1: "cells h1 a = replicate (nat k) 0" by (simp add: h1_def)
  have sz: "int (length arr) = size rb" "0 < size rb" "0 \<le> readIndex rb" "readIndex rb < size rb"
    using wf by (simp_all add: wellformed_def arr_def)
  have rem: "go_rem (readIndex rb + k) (size rb) = Some ((readIndex rb + k) mod size rb)"
    using sz k by (intro go_rem_nonneg) simp_all
  have nowait: "(\<not> closed rb \<and> AvailableRead rb < n) = False" using go by auto
  have noeof: "(closed rb \<and> AvailableRead rb = 0) = False" using av by simp
  have k0: "(k = 0) = False" using k(1) by simp
  have copied: "(if readIndex rb + k \<le> size rb then
                  (case go_slice (cells h1 (buf rb)) (readIndex rb) (readIndex rb + k) of
                     None \<Rightarrow> Inl SliceBounds
                   | Some src \<Rightarrow> Inr (go_copy h1 a 0 (cells h1 a) src))
                else
                  (let part1 = size rb - readIndex rb
                   in case go_slice (cells h1 (buf rb)) (readIndex rb)
                             (int (length (cells h1 (buf rb)))) of
                        None \<Rightarrow> Inl SliceBounds
                      | Some src1 \<Rightarrow>
                         (let h2 = go_copy h1 a 0 (cells h1 a) src1
                          in case go_slice (cells h2 a) part1 (int (length (cells h2 a))) of
                               None \<Rightarrow> Inl SliceBounds
                             | Some dst2 \<Rightarrow>
                                (case go_slice (cells h2 (buf rb)) 0 (k - part1) of
                                   None \<Rightarrow> Inl SliceBounds
                                 | Some src2 \<Rightarrow> Inr (go_copy h2 a part1 dst2 src2)))))
                = Inr (h1\<lparr>cells := (cells h1)(a := take (nat k) (pending rb h))\<rparr>)"
  proof (cases "readIndex rb + k \<le> size rb")
    case True
    let ?src = "take (nat k) (drop (nat (readIndex rb)) arr)"
    have sl: "go_slice arr (readIndex rb) (readIndex rb + k) = Some ?src"
      using True sz k by (simp add: go_slice_def)
    have len: "min (length arr - nat (readIndex rb)) (nat k) = nat k"
      using True sz k by linarith
    have cp: "go_copy h1 a 0 (cells h1 a) ?src = h1\<lparr>cells := (cells h1)(a := ?src)\<rparr>"
      by (rule go_copy_whole) (simp_all add: len data1)
    have "?src = take (nat k) (pending rb h)"
      using take_pending_contiguous [OF wf k True] by (simp add: arr_def)
    with cp sl True show ?thesis by (simp add: arr1)
  next
    case False
    define part1 where "part1 = size rb - readIndex rb"
    let ?src1 = "drop (nat (readIndex rb)) arr"
    let ?src2 = "take (nat (k - part1)) arr"
    note tp = take_pending_wrapped [OF wf k False]
    have p1: "0 < part1" "part1 < k" using sz False by (simp_all add: part1_def)
    have len1: "length ?src1 = nat part1" using sz unfolding part1_def by simp
    have sl1: "go_slice arr (readIndex rb) (int (length arr)) = Some ?src1"
      using sz by (simp add: go_slice_def)
    define h2 where "h2 = h1\<lparr>cells := (cells h1)(a := ?src1 @ replicate (nat (k - part1)) 0)\<rparr>"
    have cp1: "go_copy h1 a 0 (cells h1 a) ?src1 = h2"
    proof -
      have "go_copy h1 a 0 (cells h1 a) ?src1
              = h1\<lparr>cells := (cells h1)(a := ?src1 @ drop (length ?src1) (cells h1 a))\<rparr>"
        using p1 by (intro go_copy_head) (simp_all add: len1 data1 del: length_drop)
      moreover have "drop (length ?src1) (cells h1 a) = replicate (nat (k - part1)) 0"
        using p1 by (simp add: len1 data1 nat_diff_distrib del: length_drop)
      ultimately show ?thesis by (simp add: h2_def del: length_drop)
    qed
    have data2: "cells h2 a = ?src1 @ replicate (nat (k - part1)) 0" by (simp add: h2_def)
    have arr2: "cells h2 (buf rb) = arr" using ne arr1 by (simp add: h2_def)
    have len2: "int (length (cells h2 a)) = k"
      using p1 by (simp add: data2 len1 del: length_drop)
    have sl2: "go_slice (cells h2 a) part1 (int (length (cells h2 a)))
                 = Some (replicate (nat (k - part1)) 0)"
      using p1 unfolding len2 data2 go_slice_def drop_len_append [OF len1]
      by (simp add: len1 del: length_drop)
    have sl3: "go_slice arr 0 (k - part1) = Some ?src2"
      using p1 tp(2) sz wf unfolding part1_def wellformed_def by (simp add: go_slice_def)
    have le3: "nat (k - part1) \<le> length arr"
      using p1 tp(2) sz wf unfolding part1_def wellformed_def by linarith
    then have len3: "length ?src2 = nat (k - part1)" by simp
    have cp2: "go_copy h2 a part1 (replicate (nat (k - part1)) 0) ?src2
                 = h2\<lparr>cells := (cells h2)(a := take (nat part1) (cells h2 a) @ ?src2)\<rparr>"
      using p1 by (intro go_copy_tail) (simp_all add: data2 len1 len3 del: length_drop length_take)
    have "take (nat part1) (cells h2 a) @ ?src2 = ?src1 @ ?src2"
      unfolding data2 take_len_append [OF len1] ..
    also have "\<dots> = take (nat k) (pending rb h)"
      using tp(1) by (simp add: arr_def part1_def)
    finally have fin: "take (nat part1) (cells h2 a) @ ?src2 = take (nat k) (pending rb h)" .
    have "h2\<lparr>cells := (cells h2)(a := take (nat k) (pending rb h))\<rparr>
            = h1\<lparr>cells := (cells h1)(a := take (nat k) (pending rb h))\<rparr>"
      by (simp add: h2_def)
    with False sl1 cp1 sl2 sl3 cp2 fin show ?thesis
      by (simp add: arr1 arr2 Let_def part1_def [symmetric] del: length_drop length_take)
  qed
  have final: "h1\<lparr>cells := (cells h1)(a := take (nat k) (pending rb h))\<rparr>
                 = h\<lparr>cells := (cells h)(a := take (nat k) (pending rb h)), nextAddr := Suc a\<rparr>"
    by (simp add: h1_def)
  show ?thesis
    unfolding Read_def Let_def rs k_def [symmetric] a_def [symmetric]
    by (simp only: nowait noeof k0 if_False mk option.case prod.case copied [unfolded Let_def]
        sum.case rem final)
qed


lemma AvailableRead_nonneg: "wellformed rb h \<Longrightarrow> 0 \<le> AvailableRead rb"
  using pending_length [of rb h] by simp

lemma Read_Some_cases:
  assumes "Read rb h n = ReadReturn (Some a) rb' h'" and "0 \<le> AvailableRead rb"
  shows "(closed rb \<or> n \<le> AvailableRead rb) \<and> 0 < AvailableRead rb \<and> 0 < n"
  using assms by (auto simp: Read_def Let_def go_make_def split: if_splits)

lemma drain_index:
  assumes "wellformed rb h"
  shows "(readIndex rb + AvailableRead rb) mod size rb = writeIndex rb"
proof (cases "writeIndex rb \<ge> readIndex rb")
  case True
  then show ?thesis using assms by (simp add: AvailableRead_def wellformed_def)
next
  case False
  then have "readIndex rb + AvailableRead rb = writeIndex rb + size rb"
    by (simp add: AvailableRead_def)
  then show ?thesis using assms by (simp add: wellformed_def)
qed

text \<open>
  Well-formedness is established by \<^verbatim>\<open>New\<close> and kept by \<^verbatim>\<open>Close\<close>, \<^verbatim>\<open>Read\<close> and \<^verbatim>\<open>Write\<close>;
  on a well-formed open buffer \<^verbatim>\<open>Write\<close> returns or waits, and never panics.
\<close>

lemma New_wellformed:
  assumes "0 < sz"
  shows "\<exists>rb h'. New h sz = Inr (rb, h') \<and> wellformed rb h' \<and> pending rb h' = []
           \<and> \<not> closed rb \<and> size rb = sz"
  using assms by (simp add: New_def go_make_def wellformed_def pending_def)

lemma Close_wellformed: "wellformed rb h \<Longrightarrow> wellformed (Close rb) h"
  by (simp add: wellformed_def Close_def)

lemma Read_wellformed:
  assumes "wellformed rb h" and "Read rb h n = ReadReturn r rb' h'"
  shows "wellformed rb' h'"
proof (cases r)
  case None
  with assms(2) have "rb' = rb \<and> h' = h"
    by (auto simp: Read_def Let_def split: if_splits option.splits prod.splits sum.splits)
  with assms(1) show ?thesis by simp
next
  case (Some a)
  note nn = AvailableRead_nonneg [OF assms(1)]
  from Read_Some_cases [OF assms(2) [unfolded Some] nn]
  have go: "closed rb \<or> n \<le> AvailableRead rb" and av: "0 < AvailableRead rb" and n: "0 < n"
    by simp_all
  from Read_data [OF assms(1) go av n] assms(2)
  have rb': "rb' = rb\<lparr>readIndex := (readIndex rb + min n (AvailableRead rb)) mod size rb\<rparr>"
    and h': "h' = h\<lparr>cells := (cells h)(nextAddr h := take (nat (min n (AvailableRead rb))) (pending rb h)),
                  nextAddr := Suc (nextAddr h)\<rparr>"
    by simp_all
  show ?thesis using assms(1) unfolding rb' h' wellformed_def by auto
qed

lemma go_copy_length:
  assumes "nat off + length dst \<le> length (cells h a)"
  shows "length (cells (go_copy h a off dst src) a) = length (cells h a)"
  using assms by (auto simp: go_copy_def Let_def min_def)

lemma go_copy_nextAddr: "nextAddr (go_copy h a off dst src) = nextAddr h"
  by (simp add: go_copy_def Let_def)

lemma Write_loop_total:
  assumes "wellformed rb h" and "0 \<le> i"
  shows "\<exists>res. Write_loop rb h data i = Some res \<and> write_ok res"
  using assms
proof (induction "nat (int (length data) - i)" arbitrary: rb h i rule: less_induct)
  case less
  note wf = less.prems(1)
  define arr where "arr = cells h (buf rb)"
  have sz: "int (length arr) = size rb" "0 < size rb" "0 \<le> readIndex rb" "readIndex rb < size rb"
    "0 \<le> writeIndex rb" "writeIndex rb < size rb" "buf rb < nextAddr h"
    using wf by (simp_all add: wellformed_def arr_def)
  show ?case
  proof (cases "i < int (length data)")
    case False
    then have "Write_loop rb h data i = Some (WriteDone rb h)"
      by (subst Write_loop.simps) simp
    with wf show ?thesis by (simp add: write_ok_def)
  next
    case more: True
    let ?src = "take (nat (int (length data) - i)) (drop (nat i) data)"
    have src: "go_slice data i (int (length data)) = Some ?src"
      using more less.prems(2) by (simp add: go_slice_def)
    have lsrc: "0 < length ?src" using more less.prems(2) by simp
    show ?thesis
    proof (cases "AvailableWrite rb = 0")
      case True
      then have "Write_loop rb h data i = Some (WriteWait rb h i)"
        using more by (subst Write_loop.simps) simp
      with wf True show ?thesis by (simp add: write_ok_def)
    next
      case space: False
      show ?thesis
      proof (cases "writeIndex rb \<ge> readIndex rb")
        case True
        let ?dst = "take (nat (int (length arr) - writeIndex rb)) (drop (nat (writeIndex rb)) arr)"
        define written where "written = go_copy_n ?dst ?src"
        define h' where "h' = go_copy h (buf rb) (writeIndex rb) ?dst ?src"
        define w where "w = (writeIndex rb + written) mod size rb"
        have dst: "go_slice arr (writeIndex rb) (int (length arr)) = Some ?dst"
          using sz by (simp add: go_slice_def)
        have ldst: "int (length ?dst) = size rb - writeIndex rb" using sz by simp
        have wr: "0 < written" "written \<le> int (length data) - i"
          using ldst lsrc sz more less.prems(2) unfolding written_def go_copy_n_def by simp_all
        have rem: "go_rem (writeIndex rb + written) (size rb) = Some w"
          unfolding w_def using sz wr by (intro go_rem_nonneg) simp_all
        have step: "Write_loop rb h data i = Write_loop (rb\<lparr>writeIndex := w\<rparr>) h' data (i + written)"
          using more space True
          by (subst Write_loop.simps)
            (simp add: arr_def [symmetric] dst src Let_def written_def [symmetric]
              h'_def [symmetric] rem del: length_take length_drop)
        have fit: "nat (writeIndex rb) + length ?dst \<le> length (cells h (buf rb))"
          using sz unfolding arr_def [symmetric] by simp
        have "length (cells h' (buf rb)) = length arr"
          unfolding h'_def arr_def by (rule go_copy_length [OF fit [unfolded arr_def]])
        then have wf': "wellformed (rb\<lparr>writeIndex := w\<rparr>) h'"
          using sz unfolding wellformed_def w_def h'_def by (simp add: go_copy_nextAddr)
        have "nat (int (length data) - (i + written)) < nat (int (length data) - i)"
          using wr more by linarith
        from less.hyps [OF this wf'] less.prems(2) wr(1) step show ?thesis by simp
      next
        case False
        let ?dst = "take (nat (readIndex rb - 1 - writeIndex rb)) (drop (nat (writeIndex rb)) arr)"
        define written where "written = go_copy_n ?dst ?src"
        define h' where "h' = go_copy h (buf rb) (writeIndex rb) ?dst ?src"
        have dst: "go_slice arr (writeIndex rb) (readIndex rb - 1) = Some ?dst"
          using sz False by (simp add: go_slice_def)
        have ldst: "int (length ?dst) = readIndex rb - 1 - writeIndex rb" using sz False by simp
        have free: "0 < readIndex rb - 1 - writeIndex rb"
          using space False by (simp add: AvailableWrite_def)
        have ls: "int (length ?src) = int (length data) - i"
          using more less.prems(2) by simp
        have "written = min (int (length ?dst)) (int (length ?src))"
          unfolding written_def go_copy_n_def by (rule of_nat_min)
        then have we: "written = min (readIndex rb - 1 - writeIndex rb) (int (length data) - i)"
          by (simp only: ldst ls)
        have wr: "0 < written" "written \<le> int (length data) - i"
          "written \<le> readIndex rb - 1 - writeIndex rb"
          using free more unfolding we by simp_all
        have step: "Write_loop rb h data i
                      = Write_loop (rb\<lparr>writeIndex := writeIndex rb + written\<rparr>) h' data (i + written)"
          using more space False
          by (subst Write_loop.simps)
            (simp add: arr_def [symmetric] dst src Let_def written_def [symmetric]
              h'_def [symmetric] del: length_take length_drop)
        have fit: "nat (writeIndex rb) + length ?dst \<le> length (cells h (buf rb))"
          using sz False unfolding arr_def [symmetric] by simp
        have "length (cells h' (buf rb)) = length arr"
          unfolding h'_def arr_def by (rule go_copy_length [OF fit [unfolded arr_def]])
        then have wf': "wellformed (rb\<lparr>writeIndex := writeIndex rb + written\<rparr>) h'"
          using sz wr unfolding wellformed_def h'_def by (simp add: go_copy_nextAddr)
        have "nat (int (length data) - (i + written)) < nat (int (length data) - i)"
          using wr more by linarith
        from less.hyps [OF this wf'] less.prems(2) wr(1) step show ?thesis by simp
      qed
    qed
  qed
qed

lemma Write_total:
  assumes "wellformed rb h" and "\<not> closed rb"
  shows "\<exists>res. Write rb h data = Some res \<and> write_ok res"
  using Write_loop_total [OF assms(1), of 0 data] assms(2) by (simp add: Write_def)

text \<open>
  C8. \<^verbatim>\<open>Read(n)\<close> waits exactly while the buffer is open and holds fewer than \<open>n\<close> samples.
  On a closed buffer that holds fewer than \<open>n\<close> samples it returns \<^verbatim>\<open>nil\<close> when nothing is
  left and otherwise exactly the remaining samples, after which the buffer is empty.
  Whenever it returns a slice, the slice is a newly allocated array, different from the
  buffer's storage, that holds the first \<open>n\<close> remaining samples, and no other array has
  changed.
\<close>

theorem RingBuffer_Read_semantics:
  assumes "wellformed rb h"
  shows "(Read rb h n = ReadWait \<longleftrightarrow> \<not> closed rb \<and> AvailableRead rb < n)
       \<and> (closed rb \<and> AvailableRead rb < n \<longrightarrow>
            (if AvailableRead rb = 0 then Read rb h n = ReadReturn None rb h
             else Read rb h n
                    = ReadReturn (Some (nextAddr h)) (rb\<lparr>readIndex := writeIndex rb\<rparr>)
                        (h\<lparr>cells := (cells h)(nextAddr h := pending rb h),
                           nextAddr := Suc (nextAddr h)\<rparr>)))
       \<and> (\<forall>a rb' h'. Read rb h n = ReadReturn (Some a) rb' h' \<longrightarrow>
              a = nextAddr h \<and> a \<noteq> buf rb \<and> buf rb' = buf rb
              \<and> cells h' a = take (nat n) (pending rb h)
              \<and> (\<forall>b. b \<noteq> a \<longrightarrow> cells h' b = cells h b)
              \<and> nextAddr h' = Suc a)"
proof -
  note nn = AvailableRead_nonneg [OF assms]
  have len: "int (length (pending rb h)) = AvailableRead rb"
    by (rule pending_length [OF assms])
  have wait: "Read rb h n = ReadWait \<longleftrightarrow> \<not> closed rb \<and> AvailableRead rb < n"
    by (auto simp: Read_def Let_def split: if_splits option.splits prod.splits sum.splits)
  have closed_short: "if AvailableRead rb = 0 then Read rb h n = ReadReturn None rb h
             else Read rb h n
                    = ReadReturn (Some (nextAddr h)) (rb\<lparr>readIndex := writeIndex rb\<rparr>)
                        (h\<lparr>cells := (cells h)(nextAddr h := pending rb h),
                           nextAddr := Suc (nextAddr h)\<rparr>)"
    if c: "closed rb" and short: "AvailableRead rb < n"
  proof (cases "AvailableRead rb = 0")
    case True
    with c show ?thesis by (simp add: Read_def)
  next
    case False
    with nn have av: "0 < AvailableRead rb" by simp
    with short have n: "0 < n" by simp
    have m: "min n (AvailableRead rb) = AvailableRead rb" using short by simp
    have t: "take (nat (AvailableRead rb)) (pending rb h) = pending rb h"
      using len by simp
    from Read_data [OF assms _ av n] c False show ?thesis
      by (simp add: m t drain_index [OF assms])
  qed
  have fresh: "a = nextAddr h \<and> a \<noteq> buf rb \<and> buf rb' = buf rb
              \<and> cells h' a = take (nat n) (pending rb h)
              \<and> (\<forall>b. b \<noteq> a \<longrightarrow> cells h' b = cells h b)
              \<and> nextAddr h' = Suc a"
    if ret: "Read rb h n = ReadReturn (Some a) rb' h'" for a rb' h'
  proof -
    from Read_Some_cases [OF ret nn]
    have go: "closed rb \<or> n \<le> AvailableRead rb" and av: "0 < AvailableRead rb" and n: "0 < n"
      by simp_all
    have "take (nat (min n (AvailableRead rb))) (pending rb h) = take (nat n) (pending rb h)"
    proof (cases "n \<le> AvailableRead rb")
      case True
      then show ?thesis by (simp add: min_def)
    next
      case False
      then have "length (pending rb h) \<le> nat n" "length (pending rb h) \<le> nat (AvailableRead rb)"
        using len by linarith+
      with False show ?thesis by (simp add: min_def)
    qed
    moreover have "buf rb < nextAddr h" using assms by (simp add: wellformed_def)
    ultimately show ?thesis
      using Read_data [OF assms go av n] ret by auto
  qed
  from wait closed_short fresh show ?thesis by blast
qed

theorem RingBuffer_Read_semantics_witness:
  "wellformed \<lparr>buf = 0, size = 4, readIndex = 3, writeIndex = 1, closed = True\<rparr>
     \<lparr>cells = (\<lambda>_. [])(0 := [10, 20, 30, 40]), nextAddr = 1\<rparr>
   \<and> closed \<lparr>buf = 0, size = 4, readIndex = 3, writeIndex = 1, closed = True\<rparr>
   \<and> AvailableRead \<lparr>buf = 0, size = 4, readIndex = 3, writeIndex = 1, closed = True\<rparr> < 5
   \<and> Read \<lparr>buf = 0, size = 4, readIndex = 3, writeIndex = 1, closed = True\<rparr>
        \<lparr>cells = (\<lambda>_. [])(0 := [10, 20, 30, 40]), nextAddr = 1\<rparr> 5
       = ReadReturn (Some 1) \<lparr>buf = 0, size = 4, readIndex = 1, writeIndex = 1, closed = True\<rparr>
           \<lparr>cells = (\<lambda>_. [])(0 := [10, 20, 30, 40], 1 := [40, 10]), nextAddr = 2\<rparr>"
proof -
  let ?rb = "\<lparr>buf = 0, size = 4, readIndex = 3, writeIndex = 1, closed = True\<rparr>"
  let ?h = "\<lparr>cells = (\<lambda>_. [])(0 := [10, 20, 30, 40 :: 16 word]), nextAddr = 1\<rparr>"
  have wf: "wellformed ?rb ?h" by (simp add: wellformed_def)
  have av: "AvailableRead ?rb = 2" by (simp add: AvailableRead_def)
  from RingBuffer_Read_semantics [OF wf, of 5] wf show ?thesis
    by (simp add: av pending_def)
qed

text \<open>
  C1 (first-in first-out delivery without loss) does not hold of the code. When
  \<^verbatim>\<open>readIndex\<close> is 0 and \<^verbatim>\<open>writeIndex >= readIndex\<close>, \<^verbatim>\<open>Write\<close> copies up to the end of the
  array, the slot the buffer keeps free included, and \<^verbatim>\<open>writeIndex\<close> wraps onto
  \<^verbatim>\<open>readIndex\<close>: the full buffer reads as empty. In a buffer of size 4, after
  \<^verbatim>\<open>Write([1,2,3,4])\<close> and \<^verbatim>\<open>Close()\<close>, \<^verbatim>\<open>Read(4)\<close> signals the end of the stream and none of
  the four samples is delivered; and if \<^verbatim>\<open>Write([5])\<close> follows the first write instead,
  \<^verbatim>\<open>Read(1)\<close> delivers 5, which is not the first sample written.
\<close>

theorem RingBuffer_Write_wrap_loses_samples:
  "New heap0 4 = Inr (\<lparr>buf = 0, size = 4, readIndex = 0, writeIndex = 0, closed = False\<rparr>,
                      \<lparr>cells = (\<lambda>_. [])(0 := replicate 4 0), nextAddr = 1\<rparr>)
   \<and> Write \<lparr>buf = 0, size = 4, readIndex = 0, writeIndex = 0, closed = False\<rparr>
        \<lparr>cells = (\<lambda>_. [])(0 := replicate 4 0), nextAddr = 1\<rparr> [1, 2, 3, 4]
       = Some (WriteDone \<lparr>buf = 0, size = 4, readIndex = 0, writeIndex = 0, closed = False\<rparr>
                 \<lparr>cells = (\<lambda>_. [])(0 := [1, 2, 3, 4]), nextAddr = 1\<rparr>)
   \<and> AvailableRead \<lparr>buf = 0, size = 4, readIndex = 0, writeIndex = 0, closed = False\<rparr> = 0
   \<and> Read (Close \<lparr>buf = 0, size = 4, readIndex = 0, writeIndex = 0, closed = False\<rparr>)
        \<lparr>cells = (\<lambda>_. [])(0 := [1, 2, 3, 4]), nextAddr = 1\<rparr> 4
       = ReadReturn None \<lparr>buf = 0, size = 4, readIndex = 0, writeIndex = 0, closed = True\<rparr>
           \<lparr>cells = (\<lambda>_. [])(0 := [1, 2, 3, 4]), nextAddr = 1\<rparr>
   \<and> Write \<lparr>buf = 0, size = 4, readIndex = 0, writeIndex = 0, closed = False\<rparr>
        \<lparr>cells = (\<lambda>_. [])(0 := [1, 2, 3, 4]), nextAddr = 1\<rparr> [5]
       = Some (WriteDone \<lparr>buf = 0, size = 4, readIndex = 0, writeIndex = 1, closed = False\<rparr>
                 \<lparr>cells = (\<lambda>_. [])(0 := [5, 2, 3, 4]), nextAddr = 1\<rparr>)
   \<and> Read \<lparr>buf = 0, size = 4, readIndex = 0, writeIndex = 1, closed = False\<rparr>
        \<lparr>cells = (\<lambda>_. [])(0 := [5, 2, 3, 4]), nextAddr = 1\<rparr> 1
       = ReadReturn (Some 1) \<lparr>buf = 0, size = 4, readIndex = 1, writeIndex = 1, closed = False\<rparr>
           \<lparr>cells = (\<lambda>_. [])(0 := [5, 2, 3, 4], 1 := [5]), nextAddr = 2\<rparr>"
  by (simp add: New_def go_make_def heap0_def Write_def Write_loop.simps AvailableWrite_def
      AvailableRead_def go_slice_def go_copy_def go_copy_n_def go_rem_def Read_def Close_def Let_def)

end
